theory Spec2Isabelle
  imports Main "HOL-Library.Word" "HOL-Library.Multiset"
begin

section \<open>librbd::io::AioCompletion (src/librbd/io/AioCompletion.cc)\<close>

text \<open>
  A shallow embedding of the completion object of librbd. The member functions of
  \<^verbatim>\<open>AioCompletion.cc\<close> become functions on a record of the object's fields. Calls into
  collaborators (performance counters, work queue, event socket, user callback, condition
  variable, in-flight operation tracking) are appended to a trace in program order, so
  that the order of effects can be stated. Log output (\<^verbatim>\<open>ldout\<close>, \<^verbatim>\<open>lderr\<close>) and
  tracepoints have no effect on the object and are left out.

  The class itself is declared in \<^verbatim>\<open>AioCompletion.h\<close>, which is not part of the sources at
  hand: the fields and their types are those that \<^verbatim>\<open>AioCompletion.cc\<close> uses.
\<close>

subsection \<open>Machine types and constants\<close>

text \<open>
  The widths are those of the LP64 Linux targets the library is built for:
  \<^verbatim>\<open>ssize_t\<close> has 64 bits, \<^verbatim>\<open>int\<close> and \<^verbatim>\<open>uint32_t\<close> have 32. Signed values are read
  with \<open>sint\<close> and compared with \<open><s\<close>. The result \<^verbatim>\<open>rval\<close> is read into and assigned from
  \<^verbatim>\<open>ssize_t\<close>; the error slot \<^verbatim>\<open>error_rval\<close> is read into \<^verbatim>\<open>int err_r\<close> and compared and
  exchanged against \<^verbatim>\<open>int zero\<close>, so it holds an \<^verbatim>\<open>int\<close>; \<^verbatim>\<open>pending_count\<close> is read into
  \<^verbatim>\<open>uint32_t\<close>. All three are atomic objects: \<^verbatim>\<open>+=\<close>, \<^verbatim>\<open>--\<close>, \<^verbatim>\<open>exchange\<close> and
  \<^verbatim>\<open>compare_exchange_strong\<close> are single steps and their arithmetic wraps around.
\<close>

type_synonym ssize_t = "64 word"
type_synonym cint = "32 word"
type_synonym uint32_t = "32 word"
type_synonym coarse_mono_time = int

text \<open>The two error numbers that are used below, with their values on Linux.\<close>

definition EIO :: ssize_t where
  "EIO = 5"

definition EEXIST :: ssize_t where
  "EEXIST = 17"

subsection \<open>Data model\<close>

datatype aio_state_t = AIO_STATE_PENDING | AIO_STATE_CALLBACK | AIO_STATE_COMPLETE

text \<open>
  The operation kinds that \<^verbatim>\<open>complete()\<close> switches on; \<open>AIO_TYPE_NONE\<close> stands for any
  other value of the enumeration (the \<^verbatim>\<open>default\<close> branch of the switch).
\<close>

datatype aio_type_t =
    AIO_TYPE_NONE
  | AIO_TYPE_GENERIC
  | AIO_TYPE_OPEN
  | AIO_TYPE_CLOSE
  | AIO_TYPE_READ
  | AIO_TYPE_WRITE
  | AIO_TYPE_DISCARD
  | AIO_TYPE_FLUSH
  | AIO_TYPE_WRITESAME
  | AIO_TYPE_COMPARE_AND_WRITE

datatype perf_counter =
    l_librbd_rd_latency
  | l_librbd_wr_latency
  | l_librbd_discard_latency
  | l_librbd_flush_latency
  | l_librbd_ws_latency
  | l_librbd_cmp_latency

text \<open>
  What the code reads of the image context it points to: whether a performance counter
  sink is attached (\<^verbatim>\<open>ictx->perfcounter != nullptr\<close>) and whether the event socket is valid
  (\<^verbatim>\<open>ictx->event_socket.is_valid()\<close>). A pointer \<^verbatim>\<open>ImageCtx *\<close> is an \<open>ImageCtx option\<close>,
  \<open>None\<close> being \<^verbatim>\<open>nullptr\<close>.
\<close>

record ImageCtx =
  perfcounter :: bool
  event_socket_valid :: bool

type_synonym callback_t = nat

text \<open>What user code can see of the completion at the moment the callback is entered.\<close>

record observed =
  obs_state :: aio_state_t
  obs_ictx :: "ImageCtx option"
  obs_rval :: ssize_t

datatype event =
    Ev_assemble_result
  | Ev_tinc perf_counter int
  | Ev_delete_ictx
  | Ev_complete_cb callback_t nat nat observed
  | Ev_completed_reqs_push_back
  | Ev_event_socket_notify
  | Ev_cond_notify_all
  | Ev_async_op_finish
  | Ev_op_work_queue_C_AioRequest cint
  | Ev_delete_this

text \<open>
  Modelled from the spec: the macro \<^verbatim>\<open>ceph_assert\<close> is defined in a header that is not part
  of the sources at hand. The spec: a violated assertion is a programmer error that must
  abort, never a recoverable error path. An abort is the \<open>Inl\<close> branch of a result, naming
  the assertion that failed, and leaves no state behind.
\<close>

datatype error =
    Assert_ictx_not_null
  | Assert_pending_count_is_zero
  | Assert_previous_pending_count_is_zero
  | Assert_previous_pending_count_positive

record AioCompletion =
  complete_cb :: "callback_t option"
  complete_arg :: nat
  rbd_comp :: nat
  state :: aio_state_t
  rval :: ssize_t
  error_rval :: cint
  ref :: uint32_t
  pending_count :: uint32_t
  ictx :: "ImageCtx option"
  start_time :: coarse_mono_time
  aio_type :: aio_type_t
  async_op_started :: bool
  event_notify :: bool
  trace :: "event list"

definition emit :: "event list \<Rightarrow> AioCompletion \<Rightarrow> AioCompletion" where
  "emit es c = c\<lparr>trace := trace c @ es\<rparr>"

text \<open>
  Modelled from the spec: the initial values of the fields are set in \<^verbatim>\<open>AioCompletion.h\<close>.
  The spec: a completion is created with one reference, in the state pending, with nothing
  pending, no result, no error and no context associated.
\<close>

definition new_completion :: "callback_t option \<Rightarrow> nat \<Rightarrow> nat \<Rightarrow> AioCompletion" where
  "new_completion cb arg handle =
     \<lparr>complete_cb = cb, complete_arg = arg, rbd_comp = handle,
      state = AIO_STATE_PENDING, rval = 0, error_rval = 0, ref = 1, pending_count = 0,
      ictx = None, start_time = 0, aio_type = AIO_TYPE_NONE,
      async_op_started = False, event_notify = False, trace = []\<rparr>"

subsection \<open>Operations\<close>

text \<open>
  \<^verbatim>\<open>wait_for_complete()\<close>: the loop tests \<^verbatim>\<open>state\<close> each time the thread holds the lock,
  between waits on the condition variable. The state is written by other threads, so the
  argument is the sequence of snapshots of the completion that the successive tests see.
  \<open>None\<close>: every test so far saw a state other than complete and the thread is still
  blocked.
\<close>

fun wait_for_complete :: "AioCompletion list \<Rightarrow> cint option" where
  "wait_for_complete [] = None"
| "wait_for_complete (c # cs) =
     (if state c \<noteq> AIO_STATE_COMPLETE then wait_for_complete cs else Some 0)"

definition finalize :: "AioCompletion \<Rightarrow> error + AioCompletion" where
  "finalize c =
     (if ictx c = None then Inl Assert_ictx_not_null
      else
        let err_r = error_rval c;
            c1 = (if err_r <s 0 then c\<lparr>rval := scast err_r\<rparr> else c);
            r = rval c1
        in Inr (if 0 \<le>s r \<and> aio_type c1 = AIO_TYPE_READ
                then emit [Ev_assemble_result] c1 else c1))"

fun latency_events :: "aio_type_t \<Rightarrow> int \<Rightarrow> event list" where
  "latency_events AIO_TYPE_GENERIC elapsed = []"
| "latency_events AIO_TYPE_OPEN elapsed = []"
| "latency_events AIO_TYPE_CLOSE elapsed = []"
| "latency_events AIO_TYPE_READ elapsed = [Ev_tinc l_librbd_rd_latency elapsed]"
| "latency_events AIO_TYPE_WRITE elapsed = [Ev_tinc l_librbd_wr_latency elapsed]"
| "latency_events AIO_TYPE_DISCARD elapsed = [Ev_tinc l_librbd_discard_latency elapsed]"
| "latency_events AIO_TYPE_FLUSH elapsed = [Ev_tinc l_librbd_flush_latency elapsed]"
| "latency_events AIO_TYPE_WRITESAME elapsed = [Ev_tinc l_librbd_ws_latency elapsed]"
| "latency_events AIO_TYPE_COMPARE_AND_WRITE elapsed = [Ev_tinc l_librbd_cmp_latency elapsed]"
| "latency_events AIO_TYPE_NONE elapsed = []"

text \<open>
  \<^verbatim>\<open>complete()\<close>; \<open>now\<close> is what \<^verbatim>\<open>coarse_mono_clock::now()\<close> returns. The user callback is
  opaque: its call is recorded with what it can see of the completion at that moment.
\<close>

definition complete :: "coarse_mono_time \<Rightarrow> AioCompletion \<Rightarrow> error + AioCompletion" where
  "complete now c =
     (case ictx c of
        None \<Rightarrow> Inl Assert_ictx_not_null
      | Some i \<Rightarrow>
        let r = rval c;
            c1 = (if perfcounter i
                  then emit (latency_events (aio_type c) (now - start_time c)) c else c);
            c2 = (if aio_type c1 = AIO_TYPE_CLOSE \<or> (aio_type c1 = AIO_TYPE_OPEN \<and> r <s 0)
                  then (emit [Ev_delete_ictx] c1)\<lparr>ictx := None\<rparr> else c1);
            c3 = c2\<lparr>state := AIO_STATE_CALLBACK\<rparr>;
            c4 = (case complete_cb c3 of
                    Some cb \<Rightarrow>
                      emit [Ev_complete_cb cb (rbd_comp c3) (complete_arg c3)
                              \<lparr>obs_state = state c3, obs_ictx = ictx c3, obs_rval = rval c3\<rparr>] c3
                  | None \<Rightarrow> c3);
            c5 = (case ictx c4 of
                    Some i' \<Rightarrow>
                      if event_notify c4 \<and> event_socket_valid i'
                      then emit [Ev_completed_reqs_push_back, Ev_event_socket_notify] c4
                      else c4
                  | None \<Rightarrow> c4);
            c6 = c5\<lparr>state := AIO_STATE_COMPLETE\<rparr>;
            c7 = emit [Ev_cond_notify_all] c6
        in Inr (if async_op_started c7 then emit [Ev_async_op_finish] c7 else c7))"

definition init_time ::
  "ImageCtx option \<Rightarrow> aio_type_t \<Rightarrow> coarse_mono_time \<Rightarrow> AioCompletion \<Rightarrow> AioCompletion" where
  "init_time i t now c =
     (if ictx c = None then c\<lparr>ictx := i, aio_type := t, start_time := now\<rparr> else c)"

text \<open>
  Modelled from the spec: \<^verbatim>\<open>get()\<close> and \<^verbatim>\<open>put()\<close> are defined in \<^verbatim>\<open>AioCompletion.h\<close>,
  which is not part of the sources at hand. The spec: the caller holds the initial
  reference and each outstanding sub-operation holds one; releasing drops one reference,
  and the decrement that brings the count to zero destroys the object.
\<close>

definition get :: "AioCompletion \<Rightarrow> AioCompletion" where
  "get c = c\<lparr>ref := ref c + 1\<rparr>"

definition put :: "AioCompletion \<Rightarrow> AioCompletion" where
  "put c =
     (let previous_ref = ref c; c1 = c\<lparr>ref := previous_ref - 1\<rparr>
      in if previous_ref = 1 then emit [Ev_delete_this] c1 else c1)"

definition fail :: "coarse_mono_time \<Rightarrow> cint \<Rightarrow> AioCompletion \<Rightarrow> error + AioCompletion" where
  "fail now r c =
     (if ictx c = None then Inl Assert_ictx_not_null
      else if pending_count c \<noteq> 0 then Inl Assert_pending_count_is_zero
      else case complete now (c\<lparr>rval := scast r\<rparr>) of
             Inl e \<Rightarrow> Inl e
           | Inr c1 \<Rightarrow> Inr (put c1))"

text \<open>
  \<^verbatim>\<open>set_request_count\<close>: the exchange comes before the assertion on the previous value.
  The argument \<^verbatim>\<open>count\<close> is \<open>n\<close> here.

  Modelled from the spec: the class \<^verbatim>\<open>C_AioRequest\<close> is declared in \<^verbatim>\<open>AioCompletion.h\<close>. The
  spec: a unit of work that holds a reference to the completion and whose sole job is to
  run the finishing sequence from the work queue. Creating it takes the reference; it is
  queued with the result 0.
\<close>

definition set_request_count :: "uint32_t \<Rightarrow> AioCompletion \<Rightarrow> error + AioCompletion" where
  "set_request_count n c =
     (if ictx c = None then Inl Assert_ictx_not_null
      else
        let previous_pending_count = pending_count c;
            c1 = c\<lparr>pending_count := (if n = 0 then 1 else n)\<rparr>
        in if previous_pending_count \<noteq> 0 then Inl Assert_previous_pending_count_is_zero
           else if n = 0 then Inr (emit [Ev_op_work_queue_C_AioRequest 0] (get c1))
           else Inr c1)"

text \<open>
  \<^verbatim>\<open>complete_request\<close> in its four consecutive parts. The first returns the local variable
  \<^verbatim>\<open>pending_count\<close> (the value after this call's decrement) with the object.
\<close>

definition decrement_pending :: "AioCompletion \<Rightarrow> error + (uint32_t \<times> AioCompletion)" where
  "decrement_pending c =
     (let previous_pending_count = pending_count c;
          c1 = c\<lparr>pending_count := previous_pending_count - 1\<rparr>
      in if \<not> 0 < previous_pending_count then Inl Assert_previous_pending_count_positive
         else if ictx c1 = None then Inl Assert_ictx_not_null
         else Inr (previous_pending_count - 1, c1))"

text \<open>
  The aggregation: \<^verbatim>\<open>rval += r\<close> for a positive result, else the compare-and-exchange of
  the error slot against zero, unless the result is \<^verbatim>\<open>-EEXIST\<close>. The slot is an \<^verbatim>\<open>int\<close>:
  the result is converted to it, keeping the low 32 bits.
\<close>

definition aggregate :: "ssize_t \<Rightarrow> AioCompletion \<Rightarrow> AioCompletion" where
  "aggregate r c =
     (if 0 <s r then c\<lparr>rval := rval c + r\<rparr>
      else if r \<noteq> - EEXIST then
        (if error_rval c = 0 then c\<lparr>error_rval := ucast r\<rparr> else c)
      else c)"

definition finish ::
  "coarse_mono_time \<Rightarrow> uint32_t \<Rightarrow> AioCompletion \<Rightarrow> error + AioCompletion" where
  "finish now local_pending_count c =
     (if local_pending_count = 0 then
        (case finalize c of Inl e \<Rightarrow> Inl e | Inr c1 \<Rightarrow> complete now c1)
      else Inr c)"

definition complete_request ::
  "coarse_mono_time \<Rightarrow> ssize_t \<Rightarrow> AioCompletion \<Rightarrow> error + AioCompletion" where
  "complete_request now r c =
     (case decrement_pending c of
        Inl e \<Rightarrow> Inl e
      | Inr (local_pending_count, c1) \<Rightarrow>
          (case finish now local_pending_count (aggregate r c1) of
             Inl e \<Rightarrow> Inl e
           | Inr c2 \<Rightarrow> Inr (put c2)))"

definition is_complete :: "AioCompletion \<Rightarrow> bool" where
  "is_complete c = (state c \<noteq> AIO_STATE_PENDING)"

definition get_return_value :: "AioCompletion \<Rightarrow> ssize_t" where
  "get_return_value c = rval c"

text \<open>The backend reporting a list of results, one call after the other.\<close>

fun complete_requests ::
  "coarse_mono_time \<Rightarrow> ssize_t list \<Rightarrow> AioCompletion \<Rightarrow> error + AioCompletion" where
  "complete_requests now [] c = Inr c"
| "complete_requests now (r # rs) c =
     (case complete_request now r c of
        Inl e \<Rightarrow> Inl e
      | Inr c1 \<Rightarrow> complete_requests now rs c1)"


subsection \<open>The protocol: declare the count, then report each result\<close>

text \<open>
  The caller declares as many sub-operations as there are results, each sub-operation
  takes its reference, and the backend then reports the results in the order of the list.
\<close>

definition declare_count :: "ssize_t list \<Rightarrow> AioCompletion \<Rightarrow> error + AioCompletion" where
  "declare_count rs c =
     (case set_request_count (of_nat (length rs)) c of
        Inl e \<Rightarrow> Inl e
      | Inr c1 \<Rightarrow> Inr (fold (\<lambda>r. get) rs c1))"

definition run_reports ::
  "coarse_mono_time \<Rightarrow> ssize_t list \<Rightarrow> AioCompletion \<Rightarrow> error + AioCompletion" where
  "run_reports now rs c =
     (case declare_count rs c of
        Inl e \<Rightarrow> Inl e
      | Inr c1 \<Rightarrow> complete_requests now rs c1)"

definition final_result ::
  "coarse_mono_time \<Rightarrow> ssize_t list \<Rightarrow> AioCompletion \<Rightarrow> error + ssize_t" where
  "final_result now rs c =
     (case run_reports now rs c of
        Inl e \<Rightarrow> Inl e
      | Inr c1 \<Rightarrow> Inr (get_return_value c1))"

definition final_error_rval ::
  "coarse_mono_time \<Rightarrow> ssize_t list \<Rightarrow> AioCompletion \<Rightarrow> error + cint" where
  "final_error_rval now rs c =
     (case run_reports now rs c of
        Inl e \<Rightarrow> Inl e
      | Inr c1 \<Rightarrow> Inr (error_rval c1))"

text \<open>
  A request as issued: a new completion bound to a context, before the count is declared.
\<close>

definition issued :: "ImageCtx \<Rightarrow> aio_type_t \<Rightarrow> callback_t option \<Rightarrow> AioCompletion" where
  "issued i t cb = init_time (Some i) t 0 (new_completion cb 0 0)"

text \<open>The observations made by the user callback, one for each time it was invoked.\<close>

fun callbacks :: "event list \<Rightarrow> observed list" where
  "callbacks [] = []"
| "callbacks (Ev_complete_cb cb h a ob # es) = ob # callbacks es"
| "callbacks (e # es) = callbacks es"

subsection \<open>The words of the spec\<close>

text \<open>
  The first error of a list of reports: the first negative one that is not the sentinel
  \<^verbatim>\<open>-EEXIST\<close>. The byte count: the sum of the positive ones, in \<^verbatim>\<open>ssize_t\<close>.
\<close>

definition first_error :: "ssize_t list \<Rightarrow> ssize_t option" where
  "first_error rs = find (\<lambda>r. r <s 0 \<and> r \<noteq> - EEXIST) rs"

definition positive_sum :: "ssize_t list \<Rightarrow> ssize_t" where
  "positive_sum rs = sum_list (filter (\<lambda>r. 0 <s r) rs)"

definition spec_result :: "ssize_t list \<Rightarrow> ssize_t" where
  "spec_result rs = (case first_error rs of Some e \<Rightarrow> e | None \<Rightarrow> positive_sum rs)"

text \<open>A result that the \<^verbatim>\<open>int\<close> error slot can hold: not below \<^verbatim>\<open>INT_MIN\<close>.\<close>

definition fits_int :: "ssize_t \<Rightarrow> bool" where
  "fits_int r = (- (2 ^ 31) \<le> sint r)"

subsection \<open>Concurrent calls of complete_request\<close>

text \<open>
  Several threads inside \<^verbatim>\<open>complete_request\<close> at once. \<^verbatim>\<open>pending_count\<close>, \<^verbatim>\<open>rval\<close> and
  \<^verbatim>\<open>error_rval\<close> are atomics, so a call is a sequence of four steps, each of them one of
  the four parts above, and the steps of different calls interleave. A step is one atomic
  operation, or consecutive statements of one call taken together (the decrement with the
  two assertions after it; \<^verbatim>\<open>finalize()\<close> with \<^verbatim>\<open>complete()\<close>), so every run of a schedule is
  an interleaving that the code admits. A call holds its argument, its position and its
  local variable \<^verbatim>\<open>pending_count\<close>.
\<close>

datatype position = At_decrement | At_aggregate | At_finish | At_put | Returned

record call =
  call_r :: ssize_t
  call_at :: position
  call_pending_count :: uint32_t

definition new_call :: "ssize_t \<Rightarrow> call" where
  "new_call r = \<lparr>call_r = r, call_at = At_decrement, call_pending_count = 0\<rparr>"

definition step_call ::
  "coarse_mono_time \<Rightarrow> call \<Rightarrow> AioCompletion \<Rightarrow> error + (call \<times> AioCompletion)" where
  "step_call now t c =
     (case call_at t of
        At_decrement \<Rightarrow>
          (case decrement_pending c of
             Inl e \<Rightarrow> Inl e
           | Inr (n, c1) \<Rightarrow> Inr (t\<lparr>call_at := At_aggregate, call_pending_count := n\<rparr>, c1))
      | At_aggregate \<Rightarrow> Inr (t\<lparr>call_at := At_finish\<rparr>, aggregate (call_r t) c)
      | At_finish \<Rightarrow>
          (case finish now (call_pending_count t) c of
             Inl e \<Rightarrow> Inl e
           | Inr c1 \<Rightarrow> Inr (t\<lparr>call_at := At_put\<rparr>, c1))
      | At_put \<Rightarrow> Inr (t\<lparr>call_at := Returned\<rparr>, put c)
      | Returned \<Rightarrow> Inr (t, c))"

text \<open>
  A schedule names, step by step, the call that moves next. A call that has returned, or
  a number that names no call, leaves everything as it is.
\<close>

fun run_schedule ::
  "coarse_mono_time \<Rightarrow> nat list \<Rightarrow> call list \<times> AioCompletion \<Rightarrow>
     error + (call list \<times> AioCompletion)" where
  "run_schedule now [] (ts, c) = Inr (ts, c)"
| "run_schedule now (k # ks) (ts, c) =
     (if k < length ts then
        (case step_call now (ts ! k) c of
           Inl e \<Rightarrow> Inl e
         | Inr (t1, c1) \<Rightarrow> run_schedule now ks (ts[k := t1], c1))
      else run_schedule now ks (ts, c))"

text \<open>The same protocol, the reports being concurrent calls that move as scheduled.\<close>

definition run_concurrent ::
  "coarse_mono_time \<Rightarrow> nat list \<Rightarrow> ssize_t list \<Rightarrow> AioCompletion \<Rightarrow>
     error + (call list \<times> AioCompletion)" where
  "run_concurrent now schedule rs c =
     (case declare_count rs c of
        Inl e \<Rightarrow> Inl e
      | Inr c1 \<Rightarrow> run_schedule now schedule (map new_call rs, c1))"

text \<open>What a run shows: where each call is, what the callback saw, and the result.\<close>

definition outcome ::
  "error + (call list \<times> AioCompletion) \<Rightarrow>
     error + (position list \<times> ssize_t list \<times> aio_state_t \<times> ssize_t \<times> cint)" where
  "outcome x =
     (case x of
        Inl e \<Rightarrow> Inl e
      | Inr (ts, c) \<Rightarrow>
          Inr (map call_at ts, map obs_rval (callbacks (trace c)), state c,
               get_return_value c, error_rval c))"

text \<open>
  For the runs of a schedule. A call is past its decrement when it has left the first
  position; it has completed the request when it is past \<^verbatim>\<open>finalize()\<close> and \<^verbatim>\<open>complete()\<close>
  with 0 in its local variable. With \<open>N\<close> calls, of which \<open>U\<close> are still to decrement,
  \<^verbatim>\<open>pending_count\<close> is \<open>U\<close> and the local variables of the others hold \<open>U\<close> to \<open>N - 1\<close>,
  each once; the user callback has been invoked once for each call that has completed the
  request, if a callback is registered.
\<close>

definition past_decrement :: "call \<Rightarrow> bool" where
  "past_decrement t = (call_at t \<noteq> At_decrement)"

definition completed_by :: "call \<Rightarrow> bool" where
  "completed_by t =
     ((call_at t = At_put \<or> call_at t = Returned) \<and> call_pending_count t = 0)"

definition counted :: "nat \<Rightarrow> call multiset \<Rightarrow> AioCompletion \<Rightarrow> bool" where
  "counted N M c =
     (\<exists>U\<le>N. pending_count c = of_nat U \<and>
        image_mset (\<lambda>t. unat (call_pending_count t)) (filter_mset past_decrement M) =
          mset [U..<N])"

definition called_back :: "call multiset \<Rightarrow> AioCompletion \<Rightarrow> bool" where
  "called_back M c =
     (length (callbacks (trace c)) =
        (case complete_cb c of None \<Rightarrow> 0 | Some cb \<Rightarrow> size (filter_mset completed_by M)))"

subsection \<open>Concrete requests\<close>

definition example_ctx :: ImageCtx where
  "example_ctx = \<lparr>perfcounter = True, event_socket_valid = False\<rparr>"

definition write_request :: AioCompletion where
  "write_request = issued example_ctx AIO_TYPE_WRITE (Some 7)"

definition close_request :: AioCompletion where
  "close_request = issued example_ctx AIO_TYPE_CLOSE (Some 7)"

section \<open>Properties\<close>

subsection \<open>What the parts leave alone\<close>

lemma callbacks_append: "callbacks (xs @ ys) = callbacks xs @ callbacks ys"
  by (induction xs rule: callbacks.induct) simp_all

lemma callbacks_latency_events [simp]: "callbacks (latency_events t d) = []"
  by (cases t) simp_all

lemma aggregate_fields [simp]:
  "ictx (aggregate r c) = ictx c"
  "pending_count (aggregate r c) = pending_count c"
  "state (aggregate r c) = state c"
  "trace (aggregate r c) = trace c"
  by (simp_all add: aggregate_def)

lemma put_fields [simp]:
  "ictx (put c) = ictx c"
  "pending_count (put c) = pending_count c"
  "state (put c) = state c"
  "rval (put c) = rval c"
  "error_rval (put c) = error_rval c"
  by (simp_all add: put_def Let_def emit_def)

lemma finalize_result:
  assumes "ictx c = Some i"
  shows "\<exists>c1. finalize c = Inr c1 \<and> ictx c1 = ictx c \<and> state c1 = state c
           \<and> pending_count c1 = pending_count c \<and> error_rval c1 = error_rval c
           \<and> rval c1 = (if error_rval c <s 0 then scast (error_rval c) else rval c)"
  using assms by (simp add: finalize_def Let_def emit_def)

lemma complete_result:
  assumes "ictx c = Some i"
  shows "\<exists>c1. complete now c = Inr c1 \<and> state c1 = AIO_STATE_COMPLETE
           \<and> pending_count c1 = pending_count c \<and> error_rval c1 = error_rval c
           \<and> rval c1 = rval c"
  using assms by (simp add: complete_def Let_def emit_def split: option.splits)

subsection \<open>One report\<close>

lemma complete_request_not_last:
  assumes "ictx c = Some i" "pending_count c \<noteq> 0" "pending_count c \<noteq> 1"
  shows "complete_request now r c =
           Inr (put (aggregate r (c\<lparr>pending_count := pending_count c - 1\<rparr>)))"
  using assms
  by (simp add: complete_request_def decrement_pending_def finish_def Let_def word_neq_0_conv)

lemma complete_request_last:
  assumes "ictx c = Some i" "pending_count c = 1"
  shows "\<exists>c'. complete_request now r c = Inr c' \<and> state c' = AIO_STATE_COMPLETE
           \<and> pending_count c' = 0
           \<and> error_rval c' = error_rval (aggregate r c)
           \<and> rval c' = (if error_rval (aggregate r c) <s 0
                         then scast (error_rval (aggregate r c)) else rval (aggregate r c))"
proof -
  let ?a = "aggregate r (c\<lparr>pending_count := 0\<rparr>)"
  have a: "ictx ?a = Some i"
    using assms by simp
  obtain c1 where c1: "finalize ?a = Inr c1" "ictx c1 = ictx ?a"
    "pending_count c1 = pending_count ?a" "error_rval c1 = error_rval ?a"
    "rval c1 = (if error_rval ?a <s 0 then scast (error_rval ?a) else rval ?a)"
    using finalize_result[OF a] by blast
  have i1: "ictx c1 = Some i"
    using c1 a by simp
  obtain c2 where c2: "complete now c1 = Inr c2" "state c2 = AIO_STATE_COMPLETE"
    "pending_count c2 = pending_count c1" "error_rval c2 = error_rval c1" "rval c2 = rval c1"
    using complete_result[OF i1] by blast
  have e: "error_rval ?a = error_rval (aggregate r c)" "rval ?a = rval (aggregate r c)"
    by (simp_all add: aggregate_def)
  have "complete_request now r c = Inr (put c2)"
    using assms c1 c2
    by (simp add: complete_request_def decrement_pending_def finish_def Let_def)
  then show ?thesis
    using c1 c2 e by simp
qed

subsection \<open>Reports within the declared count never abort\<close>

lemma complete_requests_within_count:
  assumes "ictx c = Some i" "length rs \<le> unat (pending_count c)"
  shows "\<exists>c'. complete_requests now rs c = Inr c'"
  using assms
proof (induction rs arbitrary: c)
  case Nil
  then show ?case by simp
next
  case (Cons r rs)
  have pos: "0 < unat (pending_count c)"
    using Cons.prems(2) by simp
  then have n0: "pending_count c \<noteq> 0"
    by (simp add: unat_gt_0)
  show ?case
  proof (cases "pending_count c = 1")
    case True
    then have "rs = []"
      using Cons.prems(2) by simp
    moreover obtain c' where "complete_request now r c = Inr c'"
      using complete_request_last[OF Cons.prems(1) True] by blast
    ultimately show ?thesis by simp
  next
    case False
    let ?c1 = "put (aggregate r (c\<lparr>pending_count := pending_count c - 1\<rparr>))"
    have step: "complete_request now r c = Inr ?c1"
      by (rule complete_request_not_last[OF Cons.prems(1) n0 False])
    have "unat (pending_count c - 1) = unat (pending_count c) - 1"
      using n0 by (simp add: unat_minus_one)
    then have "length rs \<le> unat (pending_count ?c1)"
      using Cons.prems(2) by simp
    moreover have "ictx ?c1 = Some i"
      using Cons.prems(1) by simp
    ultimately obtain c' where "complete_requests now rs ?c1 = Inr c'"
      using Cons.IH by blast
    then show ?thesis
      using step by simp
  qed
qed

subsection \<open>All reports of a request\<close>

lemma aggregate_cong:
  assumes "error_rval c = error_rval d" "rval c = rval d"
  shows "error_rval (aggregate r c) = error_rval (aggregate r d)
       \<and> rval (aggregate r c) = rval (aggregate r d)"
  using assms by (simp add: aggregate_def)

lemma fold_aggregate_cong:
  assumes "error_rval c = error_rval d" "rval c = rval d"
  shows "error_rval (fold aggregate rs c) = error_rval (fold aggregate rs d)
       \<and> rval (fold aggregate rs c) = rval (fold aggregate rs d)"
  using assms
proof (induction rs arbitrary: c d)
  case Nil
  then show ?case by simp
next
  case (Cons r rs)
  from aggregate_cong[OF Cons.prems, of r] show ?case
    using Cons.IH[of "aggregate r c" "aggregate r d"] by simp
qed

lemma complete_requests_all:
  assumes "ictx c = Some i" "rs \<noteq> []" "length rs < 2 ^ 32"
    and "pending_count c = of_nat (length rs)"
  shows "\<exists>c'. complete_requests now rs c = Inr c' \<and> state c' = AIO_STATE_COMPLETE
           \<and> pending_count c' = 0
           \<and> error_rval c' = error_rval (fold aggregate rs c)
           \<and> rval c' = (if error_rval (fold aggregate rs c) <s 0
                         then scast (error_rval (fold aggregate rs c))
                         else rval (fold aggregate rs c))"
  using assms
proof (induction rs arbitrary: c)
  case Nil
  then show ?case by simp
next
  case (Cons r rs)
  show ?case
  proof (cases "rs = []")
    case True
    then have "pending_count c = 1"
      using Cons.prems by simp
    from complete_request_last[OF Cons.prems(1) this, of now r]
    show ?thesis
      using True by auto
  next
    case False
    then have len: "0 < length rs" "length rs < 2 ^ 32" "Suc (length rs) < 2 ^ 32"
      using Cons.prems by simp_all
    have p: "pending_count c = of_nat (length rs) + 1"
      using Cons.prems by simp
    have n0: "(of_nat (length rs) :: uint32_t) \<noteq> 0"
      using of_nat_neq_0[of "length rs", where 'a = 32] len by simp
    have n1: "pending_count c \<noteq> 0"
      using of_nat_neq_0[of "Suc (length rs)", where 'a = 32] len Cons.prems(4) by simp
    have n2: "pending_count c \<noteq> 1"
      using p n0 by simp
    let ?c1 = "put (aggregate r (c\<lparr>pending_count := pending_count c - 1\<rparr>))"
    have step: "complete_request now r c = Inr ?c1"
      by (rule complete_request_not_last[OF Cons.prems(1) n1 n2])
    have c1: "ictx ?c1 = Some i" "pending_count ?c1 = of_nat (length rs)"
      using Cons.prems(1) p by simp_all
    have "error_rval ?c1 = error_rval (aggregate r c)" "rval ?c1 = rval (aggregate r c)"
      by (simp_all add: aggregate_def)
    from fold_aggregate_cong[OF this, of rs]
    have f: "error_rval (fold aggregate rs ?c1) = error_rval (fold aggregate (r # rs) c)"
      "rval (fold aggregate rs ?c1) = rval (fold aggregate (r # rs) c)"
      by simp_all
    from Cons.IH[OF c1(1) False len(2) c1(2)]
    show ?thesis
      unfolding f using step by simp
  qed
qed

subsection \<open>What the aggregation holds\<close>

lemma rval_fold_aggregate:
  "rval (fold aggregate rs c) = rval c + positive_sum rs"
  by (induction rs arbitrary: c) (simp_all add: positive_sum_def aggregate_def)

lemma error_rval_fold_aggregate_latched:
  "error_rval c \<noteq> 0 \<Longrightarrow> error_rval (fold aggregate rs c) = error_rval c"
  by (induction rs arbitrary: c) (simp_all add: aggregate_def)

lemma sint_narrow:
  fixes r :: ssize_t
  assumes "- (2 ^ 31) \<le> sint r" "sint r < 2 ^ 31"
  shows "sint (ucast r :: cint) = sint r"
proof -
  have "sint (ucast r :: cint) = signed_take_bit 31 (uint r)"
    by (simp add: signed_ucast_eq)
  also have "\<dots> = signed_take_bit 31 (signed_take_bit 63 (uint r))"
    by simp
  also have "\<dots> = signed_take_bit 31 (sint r)"
    by (simp add: sint_uint)
  also have "\<dots> = sint r"
    using assms by (simp add: signed_take_bit_int_eq_self)
  finally show ?thesis .
qed

lemma sint_widen: "sint (scast (e :: cint) :: ssize_t) = sint e"
  by (simp add: sint_up_scast is_up)

lemma negative_fits:
  fixes r :: ssize_t
  assumes "r <s 0" "fits_int r"
  shows "(ucast r :: cint) <s 0" "(ucast r :: cint) \<noteq> 0" "scast (ucast r :: cint) = r"
proof -
  have r: "- (2 ^ 31) \<le> sint r" "sint r < 2 ^ 31" "sint r < 0"
    using assms by (simp_all add: fits_int_def word_sless_alt)
  have n: "sint (ucast r :: cint) = sint r"
    by (rule sint_narrow[OF r(1,2)])
  show "(ucast r :: cint) <s 0"
    using n r(3) by (simp add: word_sless_alt)
  then show "(ucast r :: cint) \<noteq> 0"
    by auto
  have "sint (scast (ucast r :: cint) :: ssize_t) = sint r"
    by (simp add: sint_widen n)
  then show "scast (ucast r :: cint) = r"
    by (rule signed_word_eqI)
qed

lemma not_positive_not_negative:
  fixes r :: ssize_t
  assumes "\<not> 0 <s r" "\<not> r <s 0"
  shows "r = 0"
proof -
  have "sint r = sint (0 :: ssize_t)"
    using assms by (simp add: word_sless_alt)
  then show ?thesis
    by (rule signed_word_eqI)
qed

lemma error_rval_fold_aggregate_fresh:
  assumes "error_rval c = 0" "\<forall>r\<in>set rs. fits_int r"
  shows "error_rval (fold aggregate rs c) =
           (case first_error rs of None \<Rightarrow> 0 | Some e \<Rightarrow> ucast e)"
  using assms
proof (induction rs arbitrary: c)
  case Nil
  then show ?case by (simp add: first_error_def)
next
  case (Cons r rs)
  show ?case
  proof (cases "r <s 0 \<and> r \<noteq> - EEXIST")
    case True
    then have "\<not> 0 <s r"
      by (auto simp: word_sless_alt)
    then have "error_rval (aggregate r c) = ucast r"
      using True Cons.prems(1) by (simp add: aggregate_def)
    moreover have "(ucast r :: cint) \<noteq> 0"
      using negative_fits(2)[of r] True Cons.prems(2) by simp
    ultimately have "error_rval (fold aggregate rs (aggregate r c)) = ucast r"
      using error_rval_fold_aggregate_latched[of "aggregate r c" rs] by simp
    then show ?thesis
      using True by (simp add: first_error_def)
  next
    case False
    have "error_rval (aggregate r c) = 0"
    proof (cases "0 <s r \<or> r = - EEXIST")
      case True
      then show ?thesis
        using Cons.prems(1) by (auto simp: aggregate_def)
    next
      case f: False
      then have "r = 0"
        using False not_positive_not_negative[of r] by blast
      then show ?thesis
        using Cons.prems(1) by (simp add: aggregate_def)
    qed
    moreover have "\<forall>x\<in>set rs. fits_int x"
      using Cons.prems(2) by simp
    ultimately have "error_rval (fold aggregate rs (aggregate r c)) =
           (case first_error rs of None \<Rightarrow> 0 | Some e \<Rightarrow> ucast e)"
      by (rule Cons.IH)
    moreover have "first_error (r # rs) = first_error rs"
      using False unfolding first_error_def by (cases "r <s 0") auto
    ultimately show ?thesis
      by simp
  qed
qed

subsection \<open>Declaring the count and reporting every result\<close>

lemma fold_get_fields [simp]:
  "ictx (fold (\<lambda>r. get) rs c) = ictx c"
  "pending_count (fold (\<lambda>r. get) rs c) = pending_count c"
  "rval (fold (\<lambda>r. get) rs c) = rval c"
  "error_rval (fold (\<lambda>r. get) rs c) = error_rval c"
  by (induction rs arbitrary: c) (simp_all add: get_def)

lemma declare_count_result:
  assumes "ictx c = Some i" "pending_count c = 0" "rs \<noteq> []" "length rs < 2 ^ 32"
  shows "\<exists>c1. declare_count rs c = Inr c1 \<and> ictx c1 = Some i
           \<and> pending_count c1 = of_nat (length rs)
           \<and> rval c1 = rval c \<and> error_rval c1 = error_rval c"
proof -
  have "(of_nat (length rs) :: uint32_t) \<noteq> 0"
    using of_nat_neq_0[of "length rs", where 'a = 32] assms(3,4) by simp
  then show ?thesis
    using assms(1,2) by (simp add: declare_count_def set_request_count_def Let_def)
qed

lemma run_reports_result:
  assumes "ictx c = Some i" "pending_count c = 0" "rs \<noteq> []" "length rs < 2 ^ 32"
  shows "\<exists>c'. run_reports now rs c = Inr c' \<and> state c' = AIO_STATE_COMPLETE
           \<and> error_rval c' = error_rval (fold aggregate rs c)
           \<and> rval c' = (if error_rval (fold aggregate rs c) <s 0
                         then scast (error_rval (fold aggregate rs c))
                         else rval (fold aggregate rs c))"
proof -
  obtain c1 where c1: "declare_count rs c = Inr c1" "ictx c1 = Some i"
    "pending_count c1 = of_nat (length rs)" "rval c1 = rval c" "error_rval c1 = error_rval c"
    using declare_count_result[OF assms] by blast
  have f: "error_rval (fold aggregate rs c1) = error_rval (fold aggregate rs c)"
    "rval (fold aggregate rs c1) = rval (fold aggregate rs c)"
    using fold_aggregate_cong[OF c1(5,4), of rs] by simp_all
  from complete_requests_all[OF c1(2) assms(3,4) c1(3), of now]
  obtain c' where "complete_requests now rs c1 = Inr c'" "state c' = AIO_STATE_COMPLETE"
    "error_rval c' = error_rval (fold aggregate rs c1)"
    "rval c' = (if error_rval (fold aggregate rs c1) <s 0
                then scast (error_rval (fold aggregate rs c1))
                else rval (fold aggregate rs c1))"
    by blast
  then have "run_reports now rs c = Inr c' \<and> state c' = AIO_STATE_COMPLETE
           \<and> error_rval c' = error_rval (fold aggregate rs c)
           \<and> rval c' = (if error_rval (fold aggregate rs c) <s 0
                         then scast (error_rval (fold aggregate rs c))
                         else rval (fold aggregate rs c))"
    unfolding f using c1(1) by (simp add: run_reports_def)
  then show ?thesis ..
qed

lemma first_error_negative:
  assumes "first_error rs = Some e"
  shows "e <s 0" "e \<noteq> - EEXIST" "e \<in> set rs"
  using assms by (auto simp: first_error_def find_Some_iff)

lemma final_result_spec:
  assumes "ictx c = Some i" "pending_count c = 0" "rval c = 0" "error_rval c = 0"
    and "rs \<noteq> []" "length rs < 2 ^ 32" "\<forall>r\<in>set rs. fits_int r"
  shows "final_result now rs c = Inr (spec_result rs)"
proof -
  obtain c' where c': "run_reports now rs c = Inr c'"
    "error_rval c' = error_rval (fold aggregate rs c)"
    "rval c' = (if error_rval (fold aggregate rs c) <s 0
                then scast (error_rval (fold aggregate rs c))
                else rval (fold aggregate rs c))"
    using run_reports_result[OF assms(1,2,5,6)] by blast
  have slot: "error_rval (fold aggregate rs c) =
                (case first_error rs of None \<Rightarrow> 0 | Some e \<Rightarrow> ucast e)"
    by (rule error_rval_fold_aggregate_fresh[OF assms(4,7)])
  have "rval c' = spec_result rs"
  proof (cases "first_error rs")
    case None
    then show ?thesis
      using c'(3) slot assms(3) by (simp add: spec_result_def rval_fold_aggregate)
  next
    case (Some e)
    then have "e <s 0" "fits_int e"
      using first_error_negative[OF Some] assms(7) by simp_all
    from negative_fits[OF this] show ?thesis
      using c'(3) slot Some by (simp add: spec_result_def)
  qed
  then show ?thesis
    using c'(1) by (simp add: final_result_def get_return_value_def)
qed

subsection \<open>Reports that leave the result as it is\<close>

lemma first_error_skip:
  assumes "\<not> (x <s 0 \<and> x \<noteq> - EEXIST)"
  shows "first_error (xs @ [x] @ ys) = first_error (xs @ ys)"
  using assms unfolding first_error_def by (induction xs) auto

lemma positive_sum_skip:
  assumes "\<not> 0 <s x"
  shows "positive_sum (xs @ [x] @ ys) = positive_sum (xs @ ys)"
  using assms by (simp add: positive_sum_def)

lemma spec_result_skip:
  assumes "\<not> (x <s 0 \<and> x \<noteq> - EEXIST)" "\<not> 0 <s x"
  shows "spec_result (xs @ [x] @ ys) = spec_result (xs @ ys)"
  unfolding spec_result_def first_error_skip[OF assms(1)] positive_sum_skip[OF assms(2)] ..

lemma not_positive_sentinel: "\<not> 0 <s - EEXIST"
  by (simp add: EEXIST_def word_sless_alt)

lemma fits_int_sentinel: "fits_int (- EEXIST)"
  by (simp add: fits_int_def EEXIST_def)

lemma final_result_skip:
  assumes "ictx c = Some i" "pending_count c = 0" "rval c = 0" "error_rval c = 0"
    and "length (xs @ ys) + 1 < 2 ^ 32" "\<forall>r\<in>set (xs @ ys). fits_int r"
    and "fits_int x" "\<not> (x <s 0 \<and> x \<noteq> - EEXIST)" "\<not> 0 <s x"
  shows "final_result now (xs @ [x] @ ys) c = Inr (spec_result (xs @ ys))"
proof -
  have "xs @ [x] @ ys \<noteq> []" "length (xs @ [x] @ ys) < 2 ^ 32"
    "\<forall>r\<in>set (xs @ [x] @ ys). fits_int r"
    using assms(5,6,7) by auto
  from final_result_spec[OF assms(1-4) this]
  show ?thesis
    by (simp only: spec_result_skip[OF assms(8,9)])
qed

subsection \<open>Single operations\<close>

text \<open>
  C4. When the kind is close, or the kind is open and the result on entry is negative,
  \<^verbatim>\<open>complete()\<close> deletes the image context and sets the pointer to null before it calls the
  user callback: in the trace the deletion comes first, and what the callback sees of the
  completion has no context any more. The trace is given in full.
\<close>

theorem complete_destroys_context_before_callback:
  assumes "ictx c = Some i"
    and "aio_type c = AIO_TYPE_CLOSE \<or> (aio_type c = AIO_TYPE_OPEN \<and> rval c <s 0)"
  shows "\<exists>c'. complete now c = Inr c' \<and> ictx c' = None \<and> state c' = AIO_STATE_COMPLETE \<and>
     trace c' = trace c @ [Ev_delete_ictx] @
       (case complete_cb c of
          Some cb \<Rightarrow> [Ev_complete_cb cb (rbd_comp c) (complete_arg c)
                \<lparr>obs_state = AIO_STATE_CALLBACK, obs_ictx = None, obs_rval = rval c\<rparr>]
        | None \<Rightarrow> []) @
       [Ev_cond_notify_all] @ (if async_op_started c then [Ev_async_op_finish] else [])"
  using assms by (auto simp: complete_def Let_def emit_def split: option.splits)

theorem complete_destroys_context_before_callback_witness:
  "ictx close_request = Some example_ctx \<and> aio_type close_request = AIO_TYPE_CLOSE \<and>
   (\<exists>c'. complete 5 close_request = Inr c' \<and> ictx c' = None \<and>
      trace c' = [Ev_delete_ictx,
                  Ev_complete_cb 7 0 0
                    \<lparr>obs_state = AIO_STATE_CALLBACK, obs_ictx = None, obs_rval = 0\<rparr>,
                  Ev_cond_notify_all])"
proof -
  have h: "ictx close_request = Some example_ctx" "aio_type close_request = AIO_TYPE_CLOSE"
    by (simp_all add: close_request_def issued_def init_time_def new_completion_def)
  have f: "trace close_request = []" "complete_cb close_request = Some 7"
    "rbd_comp close_request = 0" "complete_arg close_request = 0" "rval close_request = 0"
    "\<not> async_op_started close_request"
    by (simp_all add: close_request_def issued_def init_time_def new_completion_def)
  from complete_destroys_context_before_callback[of close_request example_ctx 5] h
  obtain c' where "complete 5 close_request = Inr c'" "ictx c' = None"
    "trace c' = trace close_request @ [Ev_delete_ictx] @
       (case complete_cb close_request of
          Some cb \<Rightarrow> [Ev_complete_cb cb (rbd_comp close_request) (complete_arg close_request)
                \<lparr>obs_state = AIO_STATE_CALLBACK, obs_ictx = None, obs_rval = rval close_request\<rparr>]
        | None \<Rightarrow> []) @
       [Ev_cond_notify_all] @ (if async_op_started close_request then [Ev_async_op_finish] else [])"
    by blast
  then show ?thesis
    using h f by simp
qed

text \<open>
  C5. A second \<^verbatim>\<open>set_request_count\<close> on a completion whose first one went through, and a
  \<^verbatim>\<open>complete_request\<close> when nothing is pending, each fail an assertion; no state comes
  back from either. After one declaration on a bound completion with nothing pending, any
  number of reports up to the declared count (one, when zero was declared) runs without
  a failed assertion; when all of them are in, nothing is pending, so that one more
  report is the second case.
\<close>

theorem protocol_violations_abort:
  "(set_request_count m c = Inr c1 \<longrightarrow>
      set_request_count n c1 = Inl Assert_previous_pending_count_is_zero) \<and>
   (ictx c = Some i \<and> pending_count c \<noteq> 0 \<longrightarrow>
      set_request_count n c = Inl Assert_previous_pending_count_is_zero) \<and>
   (pending_count c = 0 \<longrightarrow>
      complete_request now r c = Inl Assert_previous_pending_count_positive) \<and>
   (ictx c = Some i \<and> pending_count c = 0 \<and> length rs \<le> unat (if n = 0 then 1 else n) \<longrightarrow>
      (\<exists>c2 c3. set_request_count n c = Inr c2 \<and> complete_requests now rs c2 = Inr c3 \<and>
         (length rs = unat (if n = 0 then 1 else n) \<longrightarrow> pending_count c3 = 0)))"
proof (intro conjI impI)
  assume "set_request_count m c = Inr c1"
  then have "ictx c1 \<noteq> None \<and> pending_count c1 \<noteq> 0"
    by (auto simp: set_request_count_def Let_def emit_def get_def split: if_splits)
  then show "set_request_count n c1 = Inl Assert_previous_pending_count_is_zero"
    by (simp add: set_request_count_def Let_def)
next
  assume "ictx c = Some i \<and> pending_count c \<noteq> 0"
  then show "set_request_count n c = Inl Assert_previous_pending_count_is_zero"
    by (simp add: set_request_count_def Let_def)
next
  assume "pending_count c = 0"
  then show "complete_request now r c = Inl Assert_previous_pending_count_positive"
    by (simp add: complete_request_def decrement_pending_def Let_def)
next
  define k where "k = (if n = 0 then 1 else n)"
  assume "ictx c = Some i \<and> pending_count c = 0 \<and> length rs \<le> unat (if n = 0 then 1 else n)"
  then have a: "ictx c = Some i" "pending_count c = 0" "length rs \<le> unat k"
    by (simp_all add: k_def)
  have "\<exists>c2. set_request_count n c = Inr c2 \<and> ictx c2 = Some i \<and> pending_count c2 = k"
    using a by (cases "n = 0") (simp_all add: set_request_count_def Let_def emit_def get_def k_def)
  then obtain c2 where c2: "set_request_count n c = Inr c2" "ictx c2 = Some i"
    "pending_count c2 = k"
    by blast
  have k: "k \<noteq> 0"
    by (simp add: k_def)
  have "\<exists>c3. complete_requests now rs c2 = Inr c3 \<and> (length rs = unat k \<longrightarrow> pending_count c3 = 0)"
  proof (cases "length rs = unat k")
    case True
    have "unat k < 2 ^ 32"
      using unsigned_less[of k, where 'a = nat] by simp
    moreover have "unat k \<noteq> 0"
      using k by (simp add: unat_0_iff)
    moreover have "(of_nat (unat k) :: uint32_t) = k"
      by simp
    ultimately have "rs \<noteq> []" "length rs < 2 ^ 32" "pending_count c2 = of_nat (length rs)"
      using True c2(3) by auto
    from complete_requests_all[OF c2(2) this]
    show ?thesis by blast
  next
    case False
    have "length rs \<le> unat (pending_count c2)"
      using a c2(3) by simp
    from complete_requests_within_count[OF c2(2) this]
    show ?thesis using False by blast
  qed
  then show "\<exists>c2 c3. set_request_count n c = Inr c2 \<and> complete_requests now rs c2 = Inr c3 \<and>
         (length rs = unat (if n = 0 then 1 else n) \<longrightarrow> pending_count c3 = 0)"
    using c2(1) unfolding k_def by blast
qed

theorem protocol_violations_abort_witness:
  "set_request_count 2 write_request = Inr (write_request\<lparr>pending_count := 2\<rparr>) \<and>
   set_request_count 3 (write_request\<lparr>pending_count := 2\<rparr>) =
     Inl Assert_previous_pending_count_is_zero \<and>
   ictx (write_request\<lparr>pending_count := 7\<rparr>) = Some example_ctx \<and>
   pending_count (write_request\<lparr>pending_count := 7\<rparr>) \<noteq> 0 \<and>
   set_request_count 3 (write_request\<lparr>pending_count := 7\<rparr>) =
     Inl Assert_previous_pending_count_is_zero \<and>
   pending_count write_request = 0 \<and>
   complete_request 9 5 write_request = Inl Assert_previous_pending_count_positive \<and>
   ictx write_request = Some example_ctx \<and> length [4, 6 :: ssize_t] \<le> unat (2 :: uint32_t) \<and>
   (\<exists>c2 c3. set_request_count 2 write_request = Inr c2 \<and>
      complete_requests 9 [4, 6] c2 = Inr c3 \<and> pending_count c3 = 0)"
proof -
  have f: "ictx write_request = Some example_ctx" "pending_count write_request = 0"
    by (simp_all add: write_request_def issued_def init_time_def new_completion_def)
  have d: "set_request_count 2 write_request = Inr (write_request\<lparr>pending_count := 2\<rparr>)"
    using f by (simp add: set_request_count_def Let_def)
  have g: "ictx (write_request\<lparr>pending_count := 7\<rparr>) = Some example_ctx"
    "pending_count (write_request\<lparr>pending_count := 7\<rparr>) \<noteq> 0"
    using f by simp_all
  have l: "length [4, 6 :: ssize_t] \<le> unat (2 :: uint32_t)"
    "length [4, 6 :: ssize_t] = unat (2 :: uint32_t)"
    by simp_all
  from protocol_violations_abort
    [of 2 write_request "write_request\<lparr>pending_count := 2\<rparr>" 3 example_ctx 9 5 "[]"] d f
  have a: "set_request_count 3 (write_request\<lparr>pending_count := 2\<rparr>) =
             Inl Assert_previous_pending_count_is_zero"
    "complete_request 9 5 write_request = Inl Assert_previous_pending_count_positive"
    by blast+
  from protocol_violations_abort
    [of 0 "write_request\<lparr>pending_count := 7\<rparr>" write_request 3 example_ctx 9 5 "[]"] g
  have b: "set_request_count 3 (write_request\<lparr>pending_count := 7\<rparr>) =
             Inl Assert_previous_pending_count_is_zero"
    by blast
  from protocol_violations_abort
    [of 2 write_request "write_request\<lparr>pending_count := 2\<rparr>" 2 example_ctx 9 5 "[4, 6]"] f l
  have "\<exists>c2 c3. set_request_count 2 write_request = Inr c2 \<and>
      complete_requests 9 [4, 6] c2 = Inr c3 \<and> pending_count c3 = 0"
    by simp
  then show ?thesis
    using a b d f g l by blast
qed

text \<open>
  C6. On a bound completion with nothing pending (the two assertions of the function),
  \<^verbatim>\<open>set_request_count(0)\<close> sets the pending count to 1 and queues one \<^verbatim>\<open>C_AioRequest\<close> on
  the work queue of the context; \<^verbatim>\<open>set_request_count(n)\<close> with \<open>n > 0\<close> sets the pending
  count to \<open>n\<close> and queues nothing. In both cases the call returns with the state of the
  completion as it was and without having invoked the user callback. The function has no
  loop and no wait.
\<close>

theorem set_request_count_effect:
  assumes "ictx c = Some i" "pending_count c = 0"
  shows "\<exists>c'. set_request_count n c = Inr c' \<and>
           c' = (if n = 0
                 then emit [Ev_op_work_queue_C_AioRequest 0] (get (c\<lparr>pending_count := 1\<rparr>))
                 else c\<lparr>pending_count := n\<rparr>) \<and>
           pending_count c' = (if n = 0 then 1 else n) \<and>
           trace c' = trace c @ (if n = 0 then [Ev_op_work_queue_C_AioRequest 0] else []) \<and>
           state c' = state c"
  using assms by (simp add: set_request_count_def Let_def emit_def get_def)

theorem set_request_count_effect_witness:
  "ictx write_request = Some example_ctx \<and> pending_count write_request = 0 \<and>
   (\<exists>c'. set_request_count 0 write_request = Inr c' \<and> pending_count c' = 1 \<and>
      trace c' = [Ev_op_work_queue_C_AioRequest 0] \<and> state c' = AIO_STATE_PENDING) \<and>
   (\<exists>c'. set_request_count 4 write_request = Inr c' \<and> pending_count c' = 4 \<and>
      trace c' = [] \<and> state c' = AIO_STATE_PENDING)"
proof -
  have f: "ictx write_request = Some example_ctx" "pending_count write_request = 0"
    "trace write_request = []" "state write_request = AIO_STATE_PENDING"
    by (simp_all add: write_request_def issued_def init_time_def new_completion_def)
  show ?thesis
    using set_request_count_effect[OF f(1,2), of 0] set_request_count_effect[OF f(1,2), of 4] f
    by simp
qed

text \<open>
  C7. \<^verbatim>\<open>wait_for_complete()\<close> returns as soon as a test of the loop sees the state complete,
  and only then; the value it returns is 0 whatever the completion holds, its result
  \<^verbatim>\<open>rval\<close> included.
\<close>

theorem wait_for_complete_returns_zero:
  "wait_for_complete cs = (if AIO_STATE_COMPLETE \<in> state ` set cs then Some 0 else None) \<and>
   wait_for_complete (map (rval_update f) cs) = wait_for_complete cs"
  by (induction cs) auto

text \<open>
  C8. \<^verbatim>\<open>is_complete()\<close> is true exactly when the state is not pending: true in the state
  callback as well as in the state complete.
\<close>

theorem is_complete_iff_not_pending:
  "(is_complete c \<longleftrightarrow> state c \<noteq> AIO_STATE_PENDING) \<and>
   is_complete (c\<lparr>state := AIO_STATE_CALLBACK\<rparr>) \<and>
   is_complete (c\<lparr>state := AIO_STATE_COMPLETE\<rparr>) \<and>
   \<not> is_complete (c\<lparr>state := AIO_STATE_PENDING\<rparr>)"
  by (simp add: is_complete_def)

text \<open>
  The state callback is the one in which \<^verbatim>\<open>complete()\<close> invokes the user callback: what the
  callback sees is a completion for which \<^verbatim>\<open>is_complete()\<close> is already true.
\<close>

lemma callback_sees_is_complete:
  assumes "complete now c = Inr c'" "complete_cb c = Some cb"
  shows "\<exists>ob. callbacks (trace c') = callbacks (trace c) @ [ob] \<and>
           obs_state ob = AIO_STATE_CALLBACK \<and> is_complete (c\<lparr>state := obs_state ob\<rparr>)"
  using assms
  by (auto simp: complete_def Let_def emit_def callbacks_append is_complete_def
      split: option.splits if_splits)




subsection \<open>The aggregated result\<close>

lemma final_error_rval_spec:
  assumes "ictx c = Some i" "pending_count c = 0" "error_rval c = 0"
    and "rs \<noteq> []" "length rs < 2 ^ 32" "\<forall>r\<in>set rs. fits_int r"
  shows "final_error_rval now rs c =
           Inr (case first_error rs of None \<Rightarrow> 0 | Some e \<Rightarrow> ucast e)"
proof -
  obtain c' where "run_reports now rs c = Inr c'"
    "error_rval c' = error_rval (fold aggregate rs c)"
    using run_reports_result[OF assms(1,2,4,5)] by blast
  then show ?thesis
    using error_rval_fold_aggregate_fresh[OF assms(3,6)] by (simp add: final_error_rval_def)
qed

lemma find_only:
  assumes "x \<in> set rs" "P x" "\<forall>y\<in>set rs. P y \<longrightarrow> y = x"
  shows "find P rs = Some x"
  using assms
proof (induction rs)
  case Nil
  then show ?case by simp
next
  case (Cons a rs)
  show ?case
  proof (cases "P a")
    case True
    then have "a = x"
      using Cons.prems(3) by simp
    then show ?thesis
      using True by simp
  next
    case False
    then have "x \<in> set rs"
      using Cons.prems(1,2) by auto
    moreover have "\<forall>y\<in>set rs. P y \<longrightarrow> y = x"
      using Cons.prems(3) by simp
    ultimately have "find P rs = Some x"
      using Cons.IH Cons.prems(2) by blast
    then show ?thesis
      using False by simp
  qed
qed

lemma first_error_of_5_3_EIO_2:
  assumes "mset rs = mset [5, 3, - EIO, 2]"
  shows "rs \<noteq> []" "length rs < 2 ^ 32" "\<forall>r\<in>set rs. fits_int r" "spec_result rs = - EIO"
proof -
  have len: "length rs = 4"
    using mset_eq_length[OF assms] by simp
  have elems: "set rs = {5, 3, - EIO, 2}"
    using mset_eq_setD[OF assms] by auto
  show "rs \<noteq> []" "length rs < 2 ^ 32"
    using len by auto
  show "\<forall>r\<in>set rs. fits_int r"
    unfolding elems by (simp add: fits_int_def EIO_def)
  have "first_error rs = Some (- EIO)"
    unfolding first_error_def
    by (rule find_only) (auto simp: elems EIO_def EEXIST_def word_sless_alt)
  then show "spec_result rs = - EIO"
    by (simp add: spec_result_def)
qed

lemma sum_of_4_6:
  assumes "mset rs = mset [4, 6]"
  shows "rs \<noteq> []" "length rs < 2 ^ 32" "\<forall>r\<in>set rs. fits_int r" "spec_result rs = 10"
proof -
  have len: "length rs = 2"
    using mset_eq_length[OF assms] by simp
  have elems: "set rs = {4, 6}"
    using mset_eq_setD[OF assms] by auto
  show "rs \<noteq> []" "length rs < 2 ^ 32"
    using len by auto
  show "\<forall>r\<in>set rs. fits_int r"
    unfolding elems by (simp add: fits_int_def)
  have none: "first_error rs = None"
    unfolding first_error_def by (auto simp: find_None_iff elems word_sless_alt)
  have "filter (\<lambda>r. 0 <s r) rs = rs"
    by (rule filter_True) (auto simp: elems word_sless_alt)
  then have "positive_sum rs = sum_mset (mset rs)"
    by (simp add: positive_sum_def sum_mset_sum_list)
  then have "positive_sum rs = 10"
    unfolding assms by simp
  then show "spec_result rs = 10"
    using none by (simp add: spec_result_def)
qed

text \<open>
  C2, as the code has it. The error slot is an \<^verbatim>\<open>int\<close>, while a report is an \<^verbatim>\<open>ssize_t\<close>:
  \<^verbatim>\<open>int zero\<close> is the expected value of the compare-and-exchange, and \<^verbatim>\<open>finalize()\<close> reads
  the slot into \<^verbatim>\<open>int err_r\<close>. A negative report below \<^verbatim>\<open>INT_MIN\<close> is cut to its low 32
  bits on the way in. The single report \<open>-4294967291\<close> leaves 5 in the slot, and the
  request ends with result 0.
\<close>

theorem wide_error_is_not_the_final_result:
  "first_error [- 4294967291] = Some (- 4294967291) \<and>
   final_error_rval 9 [- 4294967291] write_request = Inr 5 \<and>
   final_result 9 [- 4294967291] write_request = Inr 0"
  by code_simp

text \<open>
  C2, amended: on a bound completion with nothing pending and nothing aggregated, when
  every one of the \<open>N \<ge> 1\<close> reports is at least \<^verbatim>\<open>INT_MIN\<close> and the calls come one after
  the other, in whatever order, the last call completes the request, and the result is
  the first negative report that is not \<^verbatim>\<open>-EEXIST\<close>, if there is one, and else the sum of
  the positive reports, taken in \<^verbatim>\<open>ssize_t\<close>. The reports 5, 3, \<^verbatim>\<open>-EIO\<close>, 2 in any order
  give \<^verbatim>\<open>-EIO\<close>; the reports 4, 6 in any order give 10.
\<close>

theorem final_result_first_error_or_sum:
  assumes "ictx c = Some i" "pending_count c = 0" "rval c = 0" "error_rval c = 0"
  shows "(rs \<noteq> [] \<and> length rs < 2 ^ 32 \<and> (\<forall>r\<in>set rs. fits_int r) \<longrightarrow>
            final_result now rs c =
              Inr (case first_error rs of Some e \<Rightarrow> e | None \<Rightarrow> positive_sum rs) \<and>
            (\<exists>c'. run_reports now rs c = Inr c' \<and> state c' = AIO_STATE_COMPLETE)) \<and>
         (mset rs = mset [5, 3, - EIO, 2] \<longrightarrow> final_result now rs c = Inr (- EIO)) \<and>
         (mset rs = mset [4, 6] \<longrightarrow> final_result now rs c = Inr 10)"
proof (intro conjI impI)
  assume "rs \<noteq> [] \<and> length rs < 2 ^ 32 \<and> (\<forall>r\<in>set rs. fits_int r)"
  then have rs: "rs \<noteq> []" "length rs < 2 ^ 32" "\<forall>r\<in>set rs. fits_int r"
    by simp_all
  from final_result_spec[OF assms rs]
  show "final_result now rs c =
          Inr (case first_error rs of Some e \<Rightarrow> e | None \<Rightarrow> positive_sum rs)"
    by (simp add: spec_result_def)
  from run_reports_result[OF assms(1,2) rs(1,2), of now]
  show "\<exists>c'. run_reports now rs c = Inr c' \<and> state c' = AIO_STATE_COMPLETE"
    by blast
next
  assume m: "mset rs = mset [5, 3, - EIO, 2]"
  from final_result_spec[OF assms first_error_of_5_3_EIO_2(1-3)[OF m]]
  show "final_result now rs c = Inr (- EIO)"
    by (simp only: first_error_of_5_3_EIO_2(4)[OF m])
next
  assume m: "mset rs = mset [4, 6]"
  from final_result_spec[OF assms sum_of_4_6(1-3)[OF m]]
  show "final_result now rs c = Inr 10"
    by (simp only: sum_of_4_6(4)[OF m])
qed

theorem final_result_first_error_or_sum_witness:
  "ictx write_request = Some example_ctx \<and> pending_count write_request = 0 \<and>
   rval write_request = 0 \<and> error_rval write_request = 0 \<and>
   final_result 9 [7, - 2, 0, - EIO, 1] write_request = Inr (- 2) \<and>
   final_result 9 [2, - EIO, 5, 3] write_request = Inr (- EIO) \<and>
   final_result 9 [6, 4] write_request = Inr 10"
proof -
  have f: "ictx write_request = Some example_ctx" "pending_count write_request = 0"
    "rval write_request = 0" "error_rval write_request = 0"
    by (simp_all add: write_request_def issued_def init_time_def new_completion_def)
  have a: "[7, - 2, 0, - EIO, 1] \<noteq> [] \<and> length [7, - 2, 0, - EIO, 1] < 2 ^ 32 \<and>
           (\<forall>r\<in>set [7, - 2, 0, - EIO, 1]. fits_int r)"
    by (simp add: fits_int_def EIO_def)
  have b: "(case first_error [7, - 2, 0, - EIO, 1] of Some e \<Rightarrow> e
            | None \<Rightarrow> positive_sum [7, - 2, 0, - EIO, 1]) = - 2"
    by (simp add: first_error_def EIO_def EEXIST_def word_sless_alt)
  have p: "mset [2, - EIO, 5, 3] = mset [5, 3, - EIO, 2]" "mset [6, 4 :: ssize_t] = mset [4, 6]"
    by (simp_all add: add_mset_commute)
  show ?thesis
    using f a p
      final_result_first_error_or_sum[OF f, of "[7, - 2, 0, - EIO, 1]" 9]
      final_result_first_error_or_sum[OF f, of "[2, - EIO, 5, 3]" 9]
      final_result_first_error_or_sum[OF f, of "[6, 4]" 9]
    unfolding b by blast
qed

text \<open>
  C3, as the code has it: a negative report that arrives after the sentinel and whose low
  32 bits are zero leaves the slot empty, and the request ends with result 0.
\<close>

theorem wide_error_after_sentinel_is_lost:
  "(- 4294967296 :: ssize_t) <s 0 \<and> (- 4294967296 :: ssize_t) \<noteq> - EEXIST \<and>
   final_error_rval 9 [- EEXIST, - 4294967296] write_request = Inr 0 \<and>
   final_result 9 [- EEXIST, - 4294967296] write_request = Inr 0"
  by code_simp

text \<open>
  C3, amended. A report of \<^verbatim>\<open>-EEXIST\<close> leaves the error slot as it is, whatever it holds:
  it does not replace an error latched before, and it does not fill the empty slot. In a
  request whose other reports are at least \<^verbatim>\<open>INT_MIN\<close>, a sentinel anywhere among the
  reports does not show in the result; a negative report \<open>e\<close> of that range that comes
  after the sentinel is latched and is the final result, as it is when it comes before.
\<close>

theorem sentinel_never_latched:
  assumes "ictx c = Some i"
  shows "(pending_count c \<noteq> 0 \<longrightarrow>
            (\<exists>c'. complete_request now (- EEXIST) c = Inr c' \<and> error_rval c' = error_rval c)) \<and>
         (pending_count c = 0 \<and> rval c = 0 \<and> error_rval c = 0 \<and>
          length (xs @ ys) + 1 < 2 ^ 32 \<and> (\<forall>r\<in>set (xs @ ys). fits_int r) \<longrightarrow>
            final_result now (xs @ [- EEXIST] @ ys) c = Inr (spec_result (xs @ ys))) \<and>
         (pending_count c = 0 \<and> rval c = 0 \<and> error_rval c = 0 \<and>
          e <s 0 \<and> e \<noteq> - EEXIST \<and> fits_int e \<longrightarrow>
            final_result now [- EEXIST, e] c = Inr e \<and>
            final_error_rval now [- EEXIST, e] c = Inr (ucast e) \<and>
            final_result now [e, - EEXIST] c = Inr e)"
proof (intro conjI impI)
  assume p: "pending_count c \<noteq> 0"
  have a: "error_rval (aggregate (- EEXIST) d) = error_rval d" for d
    using not_positive_sentinel by (simp add: aggregate_def)
  show "\<exists>c'. complete_request now (- EEXIST) c = Inr c' \<and> error_rval c' = error_rval c"
  proof (cases "pending_count c = 1")
    case True
    from complete_request_last[OF assms True, of now "- EEXIST"]
    show ?thesis
      unfolding a by blast
  next
    case False
    from complete_request_not_last[OF assms p False, of now "- EEXIST"]
    show ?thesis
      by (simp add: a)
  qed
next
  assume "pending_count c = 0 \<and> rval c = 0 \<and> error_rval c = 0 \<and>
          length (xs @ ys) + 1 < 2 ^ 32 \<and> (\<forall>r\<in>set (xs @ ys). fits_int r)"
  then have h: "pending_count c = 0" "rval c = 0" "error_rval c = 0"
    "length (xs @ ys) + 1 < 2 ^ 32" "\<forall>r\<in>set (xs @ ys). fits_int r"
    by simp_all
  show "final_result now (xs @ [- EEXIST] @ ys) c = Inr (spec_result (xs @ ys))"
    by (rule final_result_skip[OF assms h fits_int_sentinel _ not_positive_sentinel]) simp
next
  assume "pending_count c = 0 \<and> rval c = 0 \<and> error_rval c = 0 \<and>
          e <s 0 \<and> e \<noteq> - EEXIST \<and> fits_int e"
  then have h: "pending_count c = 0" "rval c = 0" "error_rval c = 0"
    and e: "e <s 0" "e \<noteq> - EEXIST" "fits_int e"
    by simp_all
  have s: "spec_result [e] = e" "first_error [- EEXIST, e] = Some e"
    using e by (simp_all add: spec_result_def first_error_def)
  have l: "length ([] @ [e]) + 1 < 2 ^ 32" "\<forall>r\<in>set ([] @ [e]). fits_int r"
    "length ([e] @ []) + 1 < 2 ^ 32" "\<forall>r\<in>set ([e] @ []). fits_int r"
    using e(3) by simp_all
  have n: "\<not> (- EEXIST <s 0 \<and> - EEXIST \<noteq> - EEXIST)"
    by simp
  from final_result_skip[OF assms h l(1,2) fits_int_sentinel n not_positive_sentinel, of now]
  show "final_result now [- EEXIST, e] c = Inr e"
    using s by simp
  from final_result_skip[OF assms h l(3,4) fits_int_sentinel n not_positive_sentinel, of now]
  show "final_result now [e, - EEXIST] c = Inr e"
    using s by simp
  have "[- EEXIST, e] \<noteq> []" "length [- EEXIST, e] < 2 ^ 32" "\<forall>r\<in>set [- EEXIST, e]. fits_int r"
    using e(3) fits_int_sentinel by simp_all
  from final_error_rval_spec[OF assms h(1,3) this, of now]
  show "final_error_rval now [- EEXIST, e] c = Inr (ucast e)"
    using s by simp
qed

theorem sentinel_never_latched_witness:
  "ictx write_request = Some example_ctx \<and> pending_count write_request = 0 \<and>
   rval write_request = 0 \<and> error_rval write_request = 0 \<and>
   (- EIO) <s 0 \<and> - EIO \<noteq> - EEXIST \<and> fits_int (- EIO) \<and>
   final_result 9 [- EEXIST, - EIO] write_request = Inr (- EIO) \<and>
   final_result 9 [- EIO, - EEXIST] write_request = Inr (- EIO) \<and>
   length ([7] @ [- EIO, 2]) + 1 < (2 :: nat) ^ 32 \<and> fits_int 7 \<and> fits_int 2 \<and>
   final_result 9 ([7] @ [- EEXIST] @ [- EIO, 2]) write_request = Inr (- EIO) \<and>
   pending_count (write_request\<lparr>pending_count := 2, error_rval := - 5\<rparr>) \<noteq> 0 \<and>
   (\<exists>c'. complete_request 9 (- EEXIST) (write_request\<lparr>pending_count := 2, error_rval := - 5\<rparr>)
            = Inr c' \<and> error_rval c' = - 5)"
proof -
  have f: "ictx write_request = Some example_ctx" "pending_count write_request = 0"
    "rval write_request = 0" "error_rval write_request = 0"
    by (simp_all add: write_request_def issued_def init_time_def new_completion_def)
  have e: "(- EIO) <s 0" "- EIO \<noteq> - EEXIST" "fits_int (- EIO)" "fits_int 7" "fits_int 2"
    by (simp_all add: EIO_def EEXIST_def fits_int_def word_sless_alt)
  have s: "spec_result ([7] @ [- EIO, 2]) = - EIO"
    by (simp add: spec_result_def first_error_def EIO_def EEXIST_def word_sless_alt)
  let ?d = "write_request\<lparr>pending_count := 2, error_rval := - 5\<rparr>"
  have d: "ictx ?d = Some example_ctx" "pending_count ?d \<noteq> 0" "error_rval ?d = - 5"
    using f by simp_all
  show ?thesis
    using f e d s sentinel_never_latched[OF f(1), of 9 "[7]" "[- EIO, 2]" "- EIO"]
      sentinel_never_latched[OF d(1), of 9 "[]" "[]" 0]
    by simp
qed

text \<open>
  C10, as the code has it: after a report of 0, a negative report whose low 32 bits are
  zero is not latched; the error that ends up in the slot, and in the result, is the one
  reported after it.
\<close>

theorem wide_error_after_zero_is_not_first:
  "first_error [0, - 4294967296, - 5] = Some (- 4294967296) \<and>
   final_error_rval 9 [0, - 4294967296, - 5] write_request = Inr (- 5) \<and>
   final_result 9 [0, - 4294967296, - 5] write_request = Inr (- 5)"
  by code_simp

text \<open>
  C10, amended. A report of 0 changes neither the sum nor the error slot: its aggregation
  step leaves the whole object as it is (the exchange writes 0 over 0, or fails). In a
  request whose other reports are at least \<^verbatim>\<open>INT_MIN\<close>, a 0 anywhere among the reports does
  not show in the result; a negative report \<open>e\<close> of that range that comes after it is
  latched and is the final result; the reports 0, 5 give 5.
\<close>

theorem zero_report_neutral:
  assumes "ictx c = Some i"
  shows "aggregate 0 c = c \<and>
         (pending_count c \<noteq> 0 \<longrightarrow>
            (\<exists>c'. complete_request now 0 c = Inr c' \<and> error_rval c' = error_rval c)) \<and>
         (pending_count c = 0 \<and> rval c = 0 \<and> error_rval c = 0 \<and>
          length (xs @ ys) + 1 < 2 ^ 32 \<and> (\<forall>r\<in>set (xs @ ys). fits_int r) \<longrightarrow>
            final_result now (xs @ [0] @ ys) c = Inr (spec_result (xs @ ys))) \<and>
         (pending_count c = 0 \<and> rval c = 0 \<and> error_rval c = 0 \<longrightarrow>
            final_result now [0, 5] c = Inr 5) \<and>
         (pending_count c = 0 \<and> rval c = 0 \<and> error_rval c = 0 \<and>
          e <s 0 \<and> e \<noteq> - EEXIST \<and> fits_int e \<longrightarrow>
            final_result now [0, e] c = Inr e \<and>
            final_error_rval now [0, e] c = Inr (ucast e))"
proof (intro conjI impI)
  have z: "\<not> 0 <s (0 :: ssize_t)" "(0 :: ssize_t) \<noteq> - EEXIST" "fits_int 0"
    "\<not> ((0 :: ssize_t) <s 0 \<and> (0 :: ssize_t) \<noteq> - EEXIST)"
    by (simp_all add: EEXIST_def fits_int_def)
  show a: "aggregate 0 d = d" for d
    using z(1,2) by (simp add: aggregate_def)
  {
    assume p: "pending_count c \<noteq> 0"
    show "\<exists>c'. complete_request now 0 c = Inr c' \<and> error_rval c' = error_rval c"
    proof (cases "pending_count c = 1")
      case True
      from complete_request_last[OF assms True, of now 0]
      show ?thesis
        unfolding a by blast
    next
      case False
      from complete_request_not_last[OF assms p False, of now 0]
      show ?thesis
        by (simp add: a)
    qed
  }
  {
    assume "pending_count c = 0 \<and> rval c = 0 \<and> error_rval c = 0 \<and>
          length (xs @ ys) + 1 < 2 ^ 32 \<and> (\<forall>r\<in>set (xs @ ys). fits_int r)"
    then have h: "pending_count c = 0" "rval c = 0" "error_rval c = 0"
      "length (xs @ ys) + 1 < 2 ^ 32" "\<forall>r\<in>set (xs @ ys). fits_int r"
      by simp_all
    show "final_result now (xs @ [0] @ ys) c = Inr (spec_result (xs @ ys))"
      by (rule final_result_skip[OF assms h z(3,4,1)])
  }
  {
    assume "pending_count c = 0 \<and> rval c = 0 \<and> error_rval c = 0"
    then have h: "pending_count c = 0" "rval c = 0" "error_rval c = 0"
      by simp_all
    have l: "length ([] @ [5 :: ssize_t]) + 1 < 2 ^ 32" "\<forall>r\<in>set ([] @ [5 :: ssize_t]). fits_int r"
      by (simp_all add: fits_int_def)
    have s: "spec_result [5] = 5"
      by (simp add: spec_result_def first_error_def positive_sum_def word_sless_alt)
    from final_result_skip[OF assms h l z(3,4,1), of now]
    show "final_result now [0, 5] c = Inr 5"
      using s by simp
  }
  {
    assume "pending_count c = 0 \<and> rval c = 0 \<and> error_rval c = 0 \<and>
          e <s 0 \<and> e \<noteq> - EEXIST \<and> fits_int e"
    then have h: "pending_count c = 0" "rval c = 0" "error_rval c = 0"
      and e: "e <s 0" "e \<noteq> - EEXIST" "fits_int e"
      by simp_all
    have e0: "\<not> 0 <s e"
      using e(1) by (auto simp: word_sless_alt)
    have s: "spec_result [e] = e" "first_error [0, e] = Some e"
      using e by (simp_all add: spec_result_def first_error_def)
    have l: "length ([] @ [e]) + 1 < 2 ^ 32" "\<forall>r\<in>set ([] @ [e]). fits_int r"
      using e(3) by simp_all
    from final_result_skip[OF assms h l z(3,4,1), of now]
    show "final_result now [0, e] c = Inr e"
      using s by simp
    have "[0, e] \<noteq> []" "length [0, e] < 2 ^ 32" "\<forall>r\<in>set [0, e]. fits_int r"
      using e(3) z(3) by simp_all
    from final_error_rval_spec[OF assms h(1,3) this, of now]
    show "final_error_rval now [0, e] c = Inr (ucast e)"
      using s by simp
  }
qed

theorem zero_report_neutral_witness:
  "ictx write_request = Some example_ctx \<and> pending_count write_request = 0 \<and>
   rval write_request = 0 \<and> error_rval write_request = 0 \<and>
   (- EIO) <s 0 \<and> - EIO \<noteq> - EEXIST \<and> fits_int (- EIO) \<and>
   final_result 9 [0, 5] write_request = Inr 5 \<and>
   final_result 9 [0, - EIO] write_request = Inr (- EIO) \<and>
   length ([7] @ [- EIO, 2]) + 1 < (2 :: nat) ^ 32 \<and> fits_int 7 \<and> fits_int 2 \<and>
   final_result 9 ([7] @ [0] @ [- EIO, 2]) write_request = Inr (- EIO) \<and>
   pending_count (write_request\<lparr>pending_count := 2, error_rval := - 5\<rparr>) \<noteq> 0 \<and>
   (\<exists>c'. complete_request 9 0 (write_request\<lparr>pending_count := 2, error_rval := - 5\<rparr>)
            = Inr c' \<and> error_rval c' = - 5)"
proof -
  have f: "ictx write_request = Some example_ctx" "pending_count write_request = 0"
    "rval write_request = 0" "error_rval write_request = 0"
    by (simp_all add: write_request_def issued_def init_time_def new_completion_def)
  have e: "(- EIO) <s 0" "- EIO \<noteq> - EEXIST" "fits_int (- EIO)" "fits_int 7" "fits_int 2"
    by (simp_all add: EIO_def EEXIST_def fits_int_def word_sless_alt)
  have s: "spec_result ([7] @ [- EIO, 2]) = - EIO"
    by (simp add: spec_result_def first_error_def EIO_def EEXIST_def word_sless_alt)
  let ?d = "write_request\<lparr>pending_count := 2, error_rval := - 5\<rparr>"
  have d: "ictx ?d = Some example_ctx" "pending_count ?d \<noteq> 0" "error_rval ?d = - 5"
    using f by simp_all
  show ?thesis
    using f e d s zero_report_neutral[OF f(1), of 9 "[7]" "[- EIO, 2]" "- EIO"]
      zero_report_neutral[OF d(1), of 9 "[]" "[]" 0]
    by simp
qed

subsection \<open>Concurrent reports\<close>

text \<open>One call that is scheduled four times in a row is the function as written.\<close>

lemma run_schedule_one_call:
  "run_schedule now [0, 0, 0, 0] ([new_call r], c) =
     (case complete_request now r c of
        Inl e \<Rightarrow> Inl e
      | Inr c1 \<Rightarrow>
          Inr ([\<lparr>call_r = r, call_at = Returned, call_pending_count = pending_count c - 1\<rparr>], c1))"
  by (simp add: step_call_def new_call_def complete_request_def decrement_pending_def Let_def
      split: sum.splits)

lemma finalize_callbacks:
  assumes "finalize c = Inr c1"
  shows "callbacks (trace c1) = callbacks (trace c)" "complete_cb c1 = complete_cb c"
    "pending_count c1 = pending_count c"
  using assms
  by (auto simp: finalize_def Let_def emit_def callbacks_append split: if_splits)

lemma complete_callbacks:
  assumes "complete now c = Inr c1"
  shows "length (callbacks (trace c1)) =
           length (callbacks (trace c)) + (case complete_cb c of None \<Rightarrow> 0 | Some cb \<Rightarrow> 1)"
    "complete_cb c1 = complete_cb c" "pending_count c1 = pending_count c"
  using assms
  by (auto simp: complete_def Let_def emit_def callbacks_append split: option.splits if_splits)

lemma finish_callbacks:
  assumes "finish now n c = Inr c1"
  shows "length (callbacks (trace c1)) =
           length (callbacks (trace c)) +
             (if n = 0 then (case complete_cb c of None \<Rightarrow> 0 | Some cb \<Rightarrow> 1) else 0)"
    "complete_cb c1 = complete_cb c" "pending_count c1 = pending_count c"
proof -
  show "length (callbacks (trace c1)) =
           length (callbacks (trace c)) +
             (if n = 0 then (case complete_cb c of None \<Rightarrow> 0 | Some cb \<Rightarrow> 1) else 0)"
  proof (cases "n = 0")
    case True
    then obtain c0 where c0: "finalize c = Inr c0" "complete now c0 = Inr c1"
      using assms by (auto simp: finish_def split: sum.splits)
    show ?thesis
      using True finalize_callbacks[OF c0(1)] complete_callbacks[OF c0(2)] by simp
  next
    case False
    then show ?thesis
      using assms by (simp add: finish_def)
  qed
  show "complete_cb c1 = complete_cb c" "pending_count c1 = pending_count c"
    using assms finalize_callbacks complete_callbacks
    by (auto simp: finish_def split: sum.splits if_splits)
qed


lemma step_call_called_back:
  assumes "step_call now t c = Inr (t1, c1)" "called_back (add_mset t M) c"
  shows "called_back (add_mset t1 M) c1"
proof (cases "call_at t")
  case At_decrement
  then obtain n where "decrement_pending c = Inr (n, c1)"
    "t1 = t\<lparr>call_at := At_aggregate, call_pending_count := n\<rparr>"
    using assms(1) by (auto simp: step_call_def split: sum.splits)
  moreover from this have "trace c1 = trace c" "complete_cb c1 = complete_cb c"
    by (auto simp: decrement_pending_def Let_def split: if_splits)
  ultimately show ?thesis
    using assms(2) At_decrement
    by (simp add: called_back_def completed_by_def split: option.splits)
next
  case At_aggregate
  then have "c1 = aggregate (call_r t) c" "t1 = t\<lparr>call_at := At_finish\<rparr>"
    using assms(1) by (auto simp: step_call_def)
  moreover from this have "trace c1 = trace c" "complete_cb c1 = complete_cb c"
    by (auto simp: aggregate_def)
  ultimately show ?thesis
    using assms(2) At_aggregate
    by (simp add: called_back_def completed_by_def split: option.splits)
next
  case At_finish
  then have f: "finish now (call_pending_count t) c = Inr c1" "t1 = t\<lparr>call_at := At_put\<rparr>"
    using assms(1) by (auto simp: step_call_def split: sum.splits)
  show ?thesis
    using assms(2) At_finish f(2) finish_callbacks[OF f(1)]
    by (auto simp: called_back_def completed_by_def split: option.splits)
next
  case At_put
  then have "c1 = put c" "t1 = t\<lparr>call_at := Returned\<rparr>"
    using assms(1) by (auto simp: step_call_def)
  moreover from this have "callbacks (trace c1) = callbacks (trace c)"
    "complete_cb c1 = complete_cb c"
    by (auto simp: put_def Let_def emit_def callbacks_append)
  ultimately show ?thesis
    using assms(2) At_put
    by (simp add: called_back_def completed_by_def split: option.splits)
next
  case Returned
  then show ?thesis
    using assms by (simp add: step_call_def)
qed

lemma upt_minus_one:
  assumes "0 < U" "U \<le> N"
  shows "mset [U - 1..<N] = add_mset (U - 1) (mset [U..<N])"
proof -
  have "[U - 1..<N] = (U - 1) # [Suc (U - 1)..<N]"
    using assms by (simp add: upt_conv_Cons)
  then show ?thesis
    using assms by simp
qed

lemma step_call_counted:
  assumes "step_call now t c = Inr (t1, c1)" "counted N (add_mset t M) c" "N < 2 ^ 32"
  shows "counted N (add_mset t1 M) c1"
proof (cases "call_at t")
  case At_decrement
  then obtain n where d: "decrement_pending c = Inr (n, c1)"
    "t1 = t\<lparr>call_at := At_aggregate, call_pending_count := n\<rparr>"
    using assms(1) by (auto simp: step_call_def split: sum.splits)
  then have n: "0 < pending_count c" "n = pending_count c - 1" "pending_count c1 = n"
    by (auto simp: decrement_pending_def Let_def split: if_splits)
  obtain U where U: "U \<le> N" "pending_count c = of_nat U"
    "image_mset (\<lambda>t. unat (call_pending_count t)) (filter_mset past_decrement M) = mset [U..<N]"
    using assms(2) At_decrement by (auto simp: counted_def past_decrement_def)
  have U0: "0 < U"
    using n(1) U(2) by (cases U) simp_all
  have "U < 2 ^ 32"
    using U(1) assms(3) by simp
  then have "unat (pending_count c) = U"
    using U(2) by (simp add: unat_of_nat)
  then have un: "unat n = U - 1"
    using n(1,2) by (simp add: unat_minus_one word_neq_0_conv)
  have "pending_count c1 = of_nat (U - 1)"
    using n(2,3) U(2) U0 by (cases U) simp_all
  moreover have "image_mset (\<lambda>t. unat (call_pending_count t))
        (filter_mset past_decrement (add_mset t1 M)) = mset [U - 1..<N]"
    using U(3) un d(2) upt_minus_one[OF U0 U(1)] by (simp add: past_decrement_def)
  moreover have "U - 1 \<le> N"
    using U(1) by simp
  ultimately show ?thesis
    unfolding counted_def by blast
next
  case At_aggregate
  then have "c1 = aggregate (call_r t) c" "t1 = t\<lparr>call_at := At_finish\<rparr>"
    using assms(1) by (auto simp: step_call_def)
  then show ?thesis
    using assms(2) At_aggregate by (simp add: counted_def past_decrement_def)
next
  case At_finish
  then have f: "finish now (call_pending_count t) c = Inr c1" "t1 = t\<lparr>call_at := At_put\<rparr>"
    using assms(1) by (auto simp: step_call_def split: sum.splits)
  show ?thesis
    using assms(2) At_finish f(2) finish_callbacks(3)[OF f(1)]
    by (simp add: counted_def past_decrement_def)
next
  case At_put
  then have "c1 = put c" "t1 = t\<lparr>call_at := Returned\<rparr>"
    using assms(1) by (auto simp: step_call_def)
  then show ?thesis
    using assms(2) At_put by (simp add: counted_def past_decrement_def)
next
  case Returned
  then show ?thesis
    using assms by (simp add: step_call_def)
qed


lemma step_call_complete_cb:
  assumes "step_call now t c = Inr (t1, c1)"
  shows "complete_cb c1 = complete_cb c"
  using assms finish_callbacks(2)
  by (auto simp: step_call_def decrement_pending_def aggregate_def put_def emit_def Let_def
      split: position.splits sum.splits if_splits)

lemma run_schedule_invariants:
  assumes "run_schedule now ks (ts, c) = Inr (ts', c')"
    and "counted N (mset ts) c" "called_back (mset ts) c" "N < 2 ^ 32"
  shows "counted N (mset ts') c' \<and> called_back (mset ts') c' \<and> length ts' = length ts
           \<and> complete_cb c' = complete_cb c"
  using assms
proof (induction ks arbitrary: ts c)
  case Nil
  then show ?case by simp
next
  case (Cons k ks)
  show ?case
  proof (cases "k < length ts")
    case False
    then have "run_schedule now ks (ts, c) = Inr (ts', c')"
      using Cons.prems(1) by simp
    from Cons.IH[OF this Cons.prems(2,3,4)] show ?thesis .
  next
    case True
    then obtain t1 c1 where s: "step_call now (ts ! k) c = Inr (t1, c1)"
      "run_schedule now ks (ts[k := t1], c1) = Inr (ts', c')"
      using Cons.prems(1) by (auto split: sum.splits)
    define M where "M = mset ts - {#ts ! k#}"
    have "ts ! k \<in># mset ts"
      using True by simp
    then have m: "mset ts = add_mset (ts ! k) M"
      by (simp add: M_def)
    have m1: "mset (ts[k := t1]) = add_mset t1 M"
      using True by (simp add: M_def mset_update)
    have "counted N (mset (ts[k := t1])) c1"
      unfolding m1 using step_call_counted[OF s(1) _ Cons.prems(4)] Cons.prems(2) m by simp
    moreover have "called_back (mset (ts[k := t1])) c1"
      unfolding m1 using step_call_called_back[OF s(1)] Cons.prems(3) m by simp
    ultimately have "counted N (mset ts') c' \<and> called_back (mset ts') c'
        \<and> length ts' = length (ts[k := t1]) \<and> complete_cb c' = complete_cb c1"
      using Cons.IH[OF s(2) _ _ Cons.prems(4)] by blast
    then show ?thesis
      using step_call_complete_cb[OF s(1)] by simp
  qed
qed

lemma size_filter_eq_count_image:
  "size (filter_mset (\<lambda>t. f t = a) M) = count (image_mset f M) a"
  by (induction M) simp_all

lemma count_upt_le_1: "count (mset [U..<N]) a \<le> 1"
  using distinct_count_atmost_1[of "[U..<N]"] by simp

lemma completed_by_at_most_one:
  assumes "counted N M c"
  shows "size (filter_mset completed_by M) \<le> 1"
proof -
  obtain U where U:
    "image_mset (\<lambda>t. unat (call_pending_count t)) (filter_mset past_decrement M) = mset [U..<N]"
    using assms by (auto simp: counted_def)
  have "filter_mset completed_by M \<subseteq>#
          filter_mset (\<lambda>t. unat (call_pending_count t) = 0) (filter_mset past_decrement M)"
    by (rule mset_subset_eqI) (auto simp: completed_by_def past_decrement_def)
  then have "size (filter_mset completed_by M) \<le>
          size (filter_mset (\<lambda>t. unat (call_pending_count t) = 0) (filter_mset past_decrement M))"
    by (rule size_mset_mono)
  also have "\<dots> = count (mset [U..<N]) 0"
    unfolding size_filter_eq_count_image U ..
  also have "\<dots> \<le> 1"
    by (rule count_upt_le_1)
  finally show ?thesis .
qed

lemma completed_by_one_when_all_returned:
  assumes "counted N M c" "size M = N" "0 < N" "\<forall>t\<in>#M. call_at t = Returned"
  shows "size (filter_mset completed_by M) = 1"
proof -
  obtain U where U: "U \<le> N"
    "image_mset (\<lambda>t. unat (call_pending_count t)) (filter_mset past_decrement M) = mset [U..<N]"
    using assms(1) by (auto simp: counted_def)
  have all: "filter_mset past_decrement M = M"
    using assms(4) by (auto simp: past_decrement_def filter_mset_eq_conv)
  have "size (mset [U..<N]) = N"
    using U(2) assms(2) unfolding all by (metis size_image_mset)
  then have "U = 0"
    using U(1) assms(3) by simp
  have "filter_mset completed_by M = filter_mset (\<lambda>t. unat (call_pending_count t) = 0) M"
    using assms(4) by (auto simp: completed_by_def unat_eq_0 intro!: filter_mset_cong)
  also have "size \<dots> = count (image_mset (\<lambda>t. unat (call_pending_count t)) M) 0"
    by (rule size_filter_eq_count_image)
  also have "image_mset (\<lambda>t. unat (call_pending_count t)) M = mset [0..<N]"
    using U(2) unfolding all \<open>U = 0\<close> .
  also have "count (mset [0..<N]) 0 = 1"
  proof -
    have "0 \<in> set [0..<N]"
      using assms(3) by simp
    then show ?thesis
      using distinct_count_atmost_1[of "[0..<N]"] by (simp del: mset_upt)
  qed
  finally show ?thesis .
qed

text \<open>
  In every schedule the user callback is invoked at most once, and exactly once when all
  calls have returned: the decrements hand out the values \<open>N - 1\<close> down to 0, each to one
  call, and only the call that got 0 runs \<^verbatim>\<open>finalize()\<close> and \<^verbatim>\<open>complete()\<close>.
\<close>

lemma callback_once_in_every_schedule:
  assumes "ictx c = Some i" "pending_count c = 0" "callbacks (trace c) = []"
    and "rs \<noteq> []" "length rs < 2 ^ 32"
    and "run_concurrent now schedule rs c = Inr (ts, c')"
  shows "length (callbacks (trace c')) \<le> 1"
    and "complete_cb c = Some cb \<Longrightarrow> \<forall>t\<in>set ts. call_at t = Returned \<Longrightarrow>
           length (callbacks (trace c')) = 1"
proof -
  let ?N = "length rs"
  have n0: "(of_nat ?N :: uint32_t) \<noteq> 0"
    using of_nat_neq_0[of ?N, where 'a = 32] assms(4,5) by simp
  obtain c1 where c1: "declare_count rs c = Inr c1" "pending_count c1 = of_nat ?N"
    "callbacks (trace c1) = []" "complete_cb c1 = complete_cb c"
    "run_schedule now schedule (map new_call rs, c1) = Inr (ts, c')"
  proof -
    have g: "trace (fold (\<lambda>r. get) xs d) = trace d \<and>
             complete_cb (fold (\<lambda>r. get) xs d) = complete_cb d" for xs :: "ssize_t list" and d
      by (induction xs arbitrary: d) (simp_all add: get_def)
    show ?thesis
      using assms(1,2,3,6) n0 g that
      by (auto simp: run_concurrent_def declare_count_def set_request_count_def Let_def
          split: sum.splits if_splits)
  qed
  have none: "filter_mset past_decrement (mset (map new_call rs)) = {#}"
    "filter_mset completed_by (mset (map new_call rs)) = {#}"
    by (auto simp: past_decrement_def completed_by_def new_call_def)
  have "counted ?N (mset (map new_call rs)) c1"
    unfolding counted_def none using c1(2) by auto
  moreover have "called_back (mset (map new_call rs)) c1"
    unfolding called_back_def none using c1(3) by (simp split: option.splits)
  ultimately have inv: "counted ?N (mset ts) c'" "called_back (mset ts) c'"
    "length ts = ?N" "complete_cb c' = complete_cb c"
    using run_schedule_invariants[OF c1(5) _ _ assms(5)] c1(4) by simp_all
  show "length (callbacks (trace c')) \<le> 1"
    using inv(2) completed_by_at_most_one[OF inv(1)]
    by (simp add: called_back_def split: option.splits)
  show "length (callbacks (trace c')) = 1"
    if "complete_cb c = Some cb" "\<forall>t\<in>set ts. call_at t = Returned"
  proof -
    have "size (filter_mset completed_by (mset ts)) = 1"
      by (rule completed_by_one_when_all_returned[OF inv(1)]) (use inv(3) assms(4) that(2) in simp_all)
    then show ?thesis
      using inv(2,4) that(1) by (simp add: called_back_def)
  qed
qed

text \<open>
  C1, on the code. A request with two sub-operations; the call of index 0 reports \<^verbatim>\<open>-EIO\<close>
  and the call of index 1 reports 5 bytes. The decrement of \<^verbatim>\<open>pending_count\<close> is the first
  statement of \<^verbatim>\<open>complete_request\<close>, before the result is aggregated. Schedule: call 0
  decrements (2 to 1); call 1 decrements (1 to 0), adds its 5 to \<^verbatim>\<open>rval\<close> and, having seen
  zero, runs \<^verbatim>\<open>finalize()\<close> and \<^verbatim>\<open>complete()\<close>. At that point the user callback has run
  once and has seen the result 5, the state is complete, and call 0 has not yet aggregated
  its error. When both calls have returned the result is still 5, with \<^verbatim>\<open>-EIO\<close> in the
  error slot. Reported one after the other, in either order, the same two results give
  \<^verbatim>\<open>-EIO\<close>.
\<close>

theorem callback_before_all_reports_are_aggregated:
  "outcome (run_concurrent 9 [0, 1, 1, 1] [- EIO, 5] write_request) =
     Inr ([At_aggregate, At_put], [5], AIO_STATE_COMPLETE, 5, 0) \<and>
   outcome (run_concurrent 9 [0, 1, 1, 1, 0, 0, 0, 1] [- EIO, 5] write_request) =
     Inr ([Returned, Returned], [5], AIO_STATE_COMPLETE, 5, - 5) \<and>
   final_result 9 [- EIO, 5] write_request = Inr (- EIO) \<and>
   final_result 9 [5, - EIO] write_request = Inr (- EIO)"
  by code_simp

end
